theory Spec2Isabelle
  imports Main "HOL-Library.Sublist"
begin

section \<open>Mangos: array and string helpers (mangos.h)\<close>

text \<open>
  A shallow embedding of the functions of \<^verbatim>\<open>mangos.h\<close> that the specification makes
  claims about: \<^verbatim>\<open>array::reverse\<close>, \<^verbatim>\<open>string::split\<close>, \<^verbatim>\<open>string::join\<close> and
  \<^verbatim>\<open>string::trim\<close>.

  A \<^verbatim>\<open>std::string\<close> is a \<open>string\<close> (a list of single-byte characters), a
  \<^verbatim>\<open>std::vector<std::string>\<close> is a \<open>string list\<close>, and a fixed-size array \<^verbatim>\<open>T (&arr)[size]\<close>
  is an \<open>'a list\<close> whose length is the template parameter \<^verbatim>\<open>size\<close>.

  The two ways in which the code can stop without returning a value are values of
  \<open>error\<close>: a failed \<^verbatim>\<open>REQUIRES\<close> (the macro expands to \<^verbatim>\<open>assert\<close>) and the
  \<^verbatim>\<open>std::out_of_range\<close> exception that \<^verbatim>\<open>std::string::substr\<close> throws.
\<close>

datatype error = AssertionFailure | OutOfRange

subsection \<open>The \<^verbatim>\<open>std::string\<close> primitives the code calls\<close>

text \<open>
  The search members of \<^verbatim>\<open>std::string\<close> return a \<^verbatim>\<open>size_t\<close>: an index into the string,
  or the sentinel \<^verbatim>\<open>npos\<close>, the largest \<^verbatim>\<open>size_t\<close>, which is larger than the size of
  every string. A \<open>size_t\<close> result is \<open>Some i\<close> for the index \<open>i\<close> and \<open>None\<close> for
  \<^verbatim>\<open>npos\<close>.
\<close>

type_synonym size_t = "nat option"

abbreviation npos :: size_t where
  "npos \<equiv> None"

text \<open>\<^verbatim>\<open>str.find(del)\<close>: the first index at which \<open>del\<close> occurs as a contiguous substring.\<close>

fun str_find :: "string \<Rightarrow> string \<Rightarrow> size_t" where
  "str_find [] del = (if del = [] then Some 0 else npos)"
| "str_find (c # cs) del =
     (if prefix del (c # cs) then Some 0 else map_option Suc (str_find cs del))"

text \<open>\<^verbatim>\<open>str.find_first_of(del)\<close>: the first index holding a character that occurs in \<open>del\<close>.\<close>

fun find_first_of :: "string \<Rightarrow> string \<Rightarrow> size_t" where
  "find_first_of [] del = npos"
| "find_first_of (c # cs) del =
     (if c \<in> set del then Some 0 else map_option Suc (find_first_of cs del))"

text \<open>\<^verbatim>\<open>str.find_first_not_of(ws)\<close>: the first index holding a character that is not in \<open>ws\<close>.\<close>

fun find_first_not_of :: "string \<Rightarrow> string \<Rightarrow> size_t" where
  "find_first_not_of [] ws = npos"
| "find_first_not_of (c # cs) ws =
     (if c \<notin> set ws then Some 0 else map_option Suc (find_first_not_of cs ws))"

text \<open>\<^verbatim>\<open>str.find_last_not_of(ws)\<close>: the last index holding a character that is not in \<open>ws\<close>.\<close>

fun find_last_not_of :: "string \<Rightarrow> string \<Rightarrow> size_t" where
  "find_last_not_of [] ws = npos"
| "find_last_not_of (c # cs) ws =
     (case find_last_not_of cs ws of
        Some i \<Rightarrow> Some (Suc i)
      | None \<Rightarrow> if c \<notin> set ws then Some 0 else npos)"

text \<open>
  \<^verbatim>\<open>str.substr(pos)\<close>: the characters from index \<open>pos\<close> to the end. It throws
  \<^verbatim>\<open>std::out_of_range\<close> when \<open>pos > size()\<close>, which is always so for \<^verbatim>\<open>npos\<close>.
\<close>

definition substr_from :: "string \<Rightarrow> size_t \<Rightarrow> error + string" where
  "substr_from str pos =
     (case pos of
        None \<Rightarrow> Inl OutOfRange
      | Some p \<Rightarrow> if p > length str then Inl OutOfRange else Inr (drop p str))"

text \<open>
  \<^verbatim>\<open>str.substr(pos, n)\<close>: at most \<open>n\<close> characters from index \<open>pos\<close>; the count
  \<^verbatim>\<open>npos\<close> takes all of them.
\<close>

definition substr :: "string \<Rightarrow> nat \<Rightarrow> size_t \<Rightarrow> error + string" where
  "substr str pos n =
     (if pos > length str then Inl OutOfRange
      else Inr (case n of None \<Rightarrow> drop pos str | Some k \<Rightarrow> take k (drop pos str)))"

text \<open>
  Unsigned \<^verbatim>\<open>size_t\<close> addition of one: \<^verbatim>\<open>npos + 1\<close> wraps around to \<open>0\<close>; an index of a
  string is below \<^verbatim>\<open>npos\<close> and is incremented.
\<close>

definition size_t_succ :: "size_t \<Rightarrow> size_t" where
  "size_t_succ r = (case r of None \<Rightarrow> Some 0 | Some i \<Rightarrow> Some (Suc i))"

text \<open>
  The widths of the integer types are those of the usual 64-bit platforms: \<^verbatim>\<open>size_t\<close> has
  64 bits and \<^verbatim>\<open>int\<close> has 32. The value of a \<open>size_t\<close> result as a number: \<^verbatim>\<open>npos\<close> is
  \<open>2 ^ 64 - 1\<close>.
\<close>

definition size_t_val :: "size_t \<Rightarrow> nat" where
  "size_t_val r = (case r of None \<Rightarrow> 2 ^ 64 - 1 | Some i \<Rightarrow> i)"

text \<open>
  \<^verbatim>\<open>int found = ...\<close> narrows the \<^verbatim>\<open>size_t\<close> search result to \<^verbatim>\<open>int\<close>: the low 32 bits are
  kept and read as a two's complement number. So \<^verbatim>\<open>npos\<close> becomes \<open>-1\<close>, which is what the
  code tests for, an index below \<open>2 ^ 31\<close> keeps its value, and a larger index becomes a
  different number, negative from \<open>2 ^ 31\<close> to \<open>2 ^ 32 - 1\<close>.
\<close>

definition to_int :: "size_t \<Rightarrow> int" where
  "to_int r =
     (let m = size_t_val r mod 2 ^ 32
      in if m < 2 ^ 31 then int m else int m - 2 ^ 32)"

text \<open>
  Where \<^verbatim>\<open>found\<close> is passed as a \<^verbatim>\<open>size_t\<close> argument, or added to a \<^verbatim>\<open>size_t\<close>, the \<^verbatim>\<open>int\<close>
  is converted back to \<^verbatim>\<open>size_t\<close>, modulo \<open>2 ^ 64\<close>; the \<^verbatim>\<open>size_t\<close> addition wraps around
  at \<open>2 ^ 64\<close>.
\<close>

definition to_size_t :: "int \<Rightarrow> nat" where
  "to_size_t i = nat (i mod 2 ^ 64)"

definition size_t_add :: "nat \<Rightarrow> nat \<Rightarrow> nat" where
  "size_t_add a b = (a + b) mod 2 ^ 64"

subsection \<open>\<^verbatim>\<open>array::reverse\<close>\<close>

text \<open>\<^verbatim>\<open>std::swap(arr[i], arr[j])\<close> on the array held as a list.\<close>

definition swap :: "'a list \<Rightarrow> nat \<Rightarrow> nat \<Rightarrow> 'a list" where
  "swap arr i j = arr[i := arr ! j, j := arr ! i]"

text \<open>
  \<^verbatim>\<open>for(size_t n = 0; n < size / 2; n++) std::swap(arr[n], arr[size - n - 1]);\<close>
  Both indices are below \<open>size\<close> whenever \<open>n < size / 2\<close>, so no access is out of range.
\<close>

function array_reverse_loop :: "nat \<Rightarrow> 'a list \<Rightarrow> 'a list" where
  "array_reverse_loop n arr =
     (if n < length arr div 2
      then array_reverse_loop (n + 1) (swap arr n (length arr - n - 1))
      else arr)"
  by pat_completeness auto
termination
  by (relation "measure (\<lambda>(n, arr). length arr div 2 - n)") (auto simp: swap_def)

declare array_reverse_loop.simps [simp del]

definition array_reverse :: "'a list \<Rightarrow> 'a list" where
  "array_reverse arr = array_reverse_loop 0 arr"

subsection \<open>\<^verbatim>\<open>string::join\<close>\<close>

text \<open>
  \<^verbatim>\<open>for(size_t n = 0; n < list.size(); n++)
      joined += list[n] + (n + 1 < list.size() ? sep : "");\<close>
\<close>

function join_loop :: "nat \<Rightarrow> string list \<Rightarrow> string \<Rightarrow> string \<Rightarrow> string" where
  "join_loop n list sep joined =
     (if n < length list
      then join_loop (n + 1) list sep
             (joined @ (list ! n @ (if n + 1 < length list then sep else [])))
      else joined)"
  by pat_completeness auto
termination
  by (relation "measure (\<lambda>(n, list, sep, joined). length list - n)") auto

declare join_loop.simps [simp del]

definition string_join :: "string list \<Rightarrow> string \<Rightarrow> string" where
  "string_join list sep = join_loop 0 list sep []"

subsection \<open>\<^verbatim>\<open>string::trim\<close>\<close>

definition WHITESPACE :: string where
  "WHITESPACE = [CHR '' '', CHR 0x09, CHR 0x0A, CHR 0x0D]"

text \<open>
  \<^verbatim>\<open>str = str.substr(str.find_first_not_of(__WHITESPACE__));
  str = str.substr(0, str.find_last_not_of(__WHITESPACE__) + 1);
  return str;\<close>
\<close>

definition string_trim :: "string \<Rightarrow> error + string" where
  "string_trim str =
     (case substr_from str (find_first_not_of str WHITESPACE) of
        Inl e \<Rightarrow> Inl e
      | Inr str1 \<Rightarrow> substr str1 0 (size_t_succ (find_last_not_of str1 WHITESPACE)))"

subsection \<open>\<^verbatim>\<open>string::split\<close>\<close>

text \<open>
  One iteration of the loop body, from the remaining text to the candidate token and the
  new remaining text:
  \<^verbatim>\<open>int found = multiple ? str.find_first_of(del) : str.find(del);
  std::string token = found == -1 ? str : str.substr(0, found);
  str = found == -1 ? "" : str.substr(found + (multiple ?: del.length()));\<close>
  The conditional with the omitted middle operand, \<^verbatim>\<open>multiple ?: del.length()\<close>, is
  \<open>multiple\<close> itself (that is, 1) when \<open>multiple\<close> is true and \<open>del.length()\<close> otherwise;
  it has type \<^verbatim>\<open>size_t\<close>, so the sum with \<^verbatim>\<open>found\<close> is computed in \<^verbatim>\<open>size_t\<close>.
\<close>

definition split_step :: "string \<Rightarrow> string \<Rightarrow> bool \<Rightarrow> error + (string \<times> string)" where
  "split_step str del multiple =
     (let found = to_int (if multiple then find_first_of str del else str_find str del) in
      case (if found = - 1 then Inr str else substr str 0 (Some (to_size_t found))) of
        Inl e \<Rightarrow> Inl e
      | Inr token \<Rightarrow>
          (case (if found = - 1 then Inr []
                 else substr_from str
                        (Some (size_t_add (to_size_t found)
                                 (if multiple then 1 else length del)))) of
             Inl e \<Rightarrow> Inl e
           | Inr str' \<Rightarrow> Inr (token, str')))"

text \<open>
  \<^verbatim>\<open>while(str.length() > 0){ ...; if(token.length()) tokens.push_back(token); }
  return tokens;\<close>
  The loop need not end for every argument (with an empty \<open>del\<close> the literal search finds
  index 0 for ever, and so it does when the narrowed \<^verbatim>\<open>found\<close> plus the length of \<open>del\<close>
  wraps around to 0), so it is a partial function: \<open>None\<close> is a run that never returns,
  \<open>Some (Inl e)\<close> a run stopped by \<open>e\<close>, and \<open>Some (Inr tokens)\<close> a returned vector.
\<close>

partial_function (option) split_loop ::
  "string \<Rightarrow> string \<Rightarrow> bool \<Rightarrow> string list \<Rightarrow> (error + string list) option" where
  "split_loop str del multiple tokens =
     (if length str > 0 then
        (case split_step str del multiple of
           Inl e \<Rightarrow> Some (Inl e)
         | Inr (token, str') \<Rightarrow>
             split_loop str' del multiple
               (if length token \<noteq> 0 then tokens @ [token] else tokens))
      else Some (Inr tokens))"

declare split_loop.simps [code]

text \<open>
  \<^verbatim>\<open>REQUIRES(str.length() > 0); REQUIRES(del.length() > 0);
  std::vector<std::string> tokens; while ... return tokens;\<close>
\<close>

definition string_split :: "string \<Rightarrow> string \<Rightarrow> bool \<Rightarrow> (error + string list) option" where
  "string_split str del multiple =
     (if \<not> length str > 0 then Some (Inl AssertionFailure)
      else if \<not> length del > 0 then Some (Inl AssertionFailure)
      else split_loop str del multiple [])"

subsection \<open>The joined text, as the specification words it\<close>

text \<open>
  The tokens in order, with one copy of the separator between each adjacent pair: this is
  the specification's description of \<^verbatim>\<open>join\<close>, against which the loop is compared.
\<close>

fun interleave :: "string list \<Rightarrow> string \<Rightarrow> string" where
  "interleave [] sep = []"
| "interleave [t] sep = t"
| "interleave (t # u # ts) sep = t @ sep @ interleave (u # ts) sep"

subsection \<open>Splitting on a set of characters, as the specification words it\<close>

text \<open>
  The specification describes set mode as splitting on any of the characters of the
  delimiter: \<open>pieces S text\<close> are the stretches of the text between the characters that
  belong to \<open>S\<close>, empty ones included, each separator being one character. The tokens
  are the non-empty pieces.
\<close>

fun pieces :: "char set \<Rightarrow> string \<Rightarrow> string list" where
  "pieces S [] = [[]]"
| "pieces S (c # cs) =
     (if c \<in> S then [] # pieces S cs
      else (c # hd (pieces S cs)) # tl (pieces S cs))"

section \<open>Properties\<close>

subsection \<open>\<^verbatim>\<open>string::join\<close>\<close>

lemma join_loop_interleave:
  "join_loop n list sep joined = joined @ interleave (drop n list) sep"
proof (induction n list sep joined rule: join_loop.induct)
  case (1 n list sep joined)
  show ?case
  proof (cases "n < length list")
    case False
    then show ?thesis by (subst join_loop.simps) simp
  next
    case True
    then have d: "drop n list = list ! n # drop (Suc n) list"
      by (simp add: Cons_nth_drop_Suc)
    show ?thesis
    proof (cases "n + 1 < length list")
      case True
      then have "drop (Suc n) list = list ! Suc n # drop (Suc (Suc n)) list"
        by (simp add: Cons_nth_drop_Suc)
      with 1 \<open>n < length list\<close> True d show ?thesis
        by (subst join_loop.simps) simp
    next
      case False
      with \<open>n < length list\<close> have "drop (Suc n) list = []" by simp
      with 1 \<open>n < length list\<close> False d show ?thesis
        by (subst join_loop.simps) simp
    qed
  qed
qed

lemma string_join_interleave: "string_join list sep = interleave list sep"
  by (simp add: string_join_def join_loop_interleave)

lemma interleave_Cons: "interleave (t # ts) sep = t @ concat (map (\<lambda>u. sep @ u) ts)"
  by (induction ts arbitrary: t) auto

text \<open>
  Claim C6. For every token list and separator, \<open>string_join\<close> concatenates the tokens in
  order with exactly one copy of the separator between each adjacent pair, none before the
  first token and none after the last: the result is the specification's interleaving,
  which for a list \<open>t # ts\<close> is \<open>t\<close> followed by \<open>sep @ u\<close> for every later token
  \<open>u\<close>. The join of the empty list is the empty text, and
  \<open>join([], ",") = ""\<close>, \<open>join(["a"], ",") = "a"\<close>, \<open>join(["a","b","c"], "-") = "a-b-c"\<close>.
\<close>

theorem string_join_separates:
  "string_join list sep = interleave list sep \<and>
   string_join [] sep = [] \<and>
   string_join (t # ts) sep = t @ concat (map (\<lambda>u. sep @ u) ts) \<and>
   string_join [] '','' = [] \<and>
   string_join [''a''] '','' = ''a'' \<and>
   string_join [''a'', ''b'', ''c''] ''-'' = ''a-b-c''"
  by (simp add: string_join_interleave interleave_Cons)

subsection \<open>\<^verbatim>\<open>array::reverse\<close>\<close>

lemma length_swap: "length (swap arr i j) = length arr"
  by (simp add: swap_def)

lemma length_array_reverse_loop: "length (array_reverse_loop n arr) = length arr"
  by (induction n arr rule: array_reverse_loop.induct)
     (subst array_reverse_loop.simps, simp add: length_swap)

lemma nth_array_reverse_loop:
  "i < length arr \<Longrightarrow>
   array_reverse_loop n arr ! i =
     (if n \<le> i \<and> i < length arr - n then arr ! (length arr - 1 - i) else arr ! i)"
proof (induction n arr rule: array_reverse_loop.induct)
  case (1 n arr)
  show ?case
  proof (cases "n < length arr div 2")
    case False
    have "n \<le> i \<and> i < length arr - n \<Longrightarrow> length arr - 1 - i = i"
      using False by arith
    with False show ?thesis by (subst array_reverse_loop.simps) auto
  next
    case True
    have "array_reverse_loop n arr ! i =
          array_reverse_loop (n + 1) (swap arr n (length arr - n - 1)) ! i"
      using True by (subst array_reverse_loop.simps) simp
    also have "\<dots> = (if n + 1 \<le> i \<and> i < length arr - (n + 1)
                     then swap arr n (length arr - n - 1) ! (length arr - 1 - i)
                     else swap arr n (length arr - n - 1) ! i)"
      using 1 True by (simp add: length_swap)
    also have "\<dots> = (if n \<le> i \<and> i < length arr - n then arr ! (length arr - 1 - i) else arr ! i)"
      using True \<open>i < length arr\<close>
      by (auto simp: swap_def nth_list_update)
    finally show ?thesis .
  qed
qed

lemma array_reverse_rev: "array_reverse arr = rev arr"
  by (rule nth_equalityI)
     (simp_all add: array_reverse_def length_array_reverse_loop nth_array_reverse_loop rev_nth)

text \<open>
  Claim C7. Applying the in-place reversal of a fixed-size sequence twice restores the
  original sequence: \<open>reverse(reverse(S)) = S\<close>. It holds for every length, so in
  particular for every non-empty sequence.
\<close>

theorem array_reverse_twice: "array_reverse (array_reverse S) = S"
  by (simp add: array_reverse_rev)

subsection \<open>\<^verbatim>\<open>string::trim\<close>\<close>

lemma find_first_not_of_None: "find_first_not_of str ws = None \<longleftrightarrow> set str \<subseteq> set ws"
  by (induction str) auto

lemma substr_from_find_first_not_of:
  "substr_from str (find_first_not_of str ws) =
     (if set str \<subseteq> set ws then Inl OutOfRange
      else Inr (dropWhile (\<lambda>c. c \<in> set ws) str))"
proof (induction str)
  case Nil
  then show ?case by (simp add: substr_from_def)
next
  case (Cons c cs)
  then show ?case
    by (auto simp: substr_from_def split: option.splits if_splits)
qed

lemma find_last_not_of_None: "find_last_not_of str ws = None \<longleftrightarrow> set str \<subseteq> set ws"
  by (induction str) (auto split: option.splits)

lemma substr_find_last_not_of:
  "substr str 0 (size_t_succ (find_last_not_of str ws)) =
     Inr (rev (dropWhile (\<lambda>c. c \<in> set ws) (rev str)))"
proof (induction str)
  case Nil
  then show ?case by (simp add: substr_def size_t_succ_def)
next
  case (Cons c cs)
  show ?case
  proof (cases "find_last_not_of cs ws")
    case None
    then have "set cs \<subseteq> set ws" by (simp add: find_last_not_of_None)
    then have "\<forall>x\<in>set (rev cs). x \<in> set ws" by auto
    then have "dropWhile (\<lambda>c. c \<in> set ws) (rev cs @ [c]) = dropWhile (\<lambda>c. c \<in> set ws) [c]"
      by (intro dropWhile_append2) auto
    then have dw: "dropWhile (\<lambda>c. c \<in> set ws) (rev (c # cs)) = (if c \<in> set ws then [] else [c])"
      by simp
    show ?thesis unfolding dw using None by (simp add: substr_def size_t_succ_def)
  next
    case (Some i)
    then have "\<not> set cs \<subseteq> set ws" using find_last_not_of_None[of cs ws] by simp
    then have "\<exists>x\<in>set (rev cs). \<not> x \<in> set ws" by auto
    then obtain x where "x \<in> set (rev cs)" "\<not> x \<in> set ws" by blast
    then have "dropWhile (\<lambda>c. c \<in> set ws) (rev cs @ [c]) = dropWhile (\<lambda>c. c \<in> set ws) (rev cs) @ [c]"
      by (intro dropWhile_append1)
    then have dw: "dropWhile (\<lambda>c. c \<in> set ws) (rev (c # cs)) = dropWhile (\<lambda>c. c \<in> set ws) (rev cs) @ [c]"
      by simp
    show ?thesis unfolding dw using Some Cons by (simp add: substr_def size_t_succ_def)
  qed
qed

lemma string_trim_eq:
  "string_trim str =
     (if set str \<subseteq> set WHITESPACE then Inl OutOfRange
      else Inr (rev (dropWhile (\<lambda>c. c \<in> set WHITESPACE)
                  (rev (dropWhile (\<lambda>c. c \<in> set WHITESPACE) str)))))"
  by (simp add: string_trim_def substr_from_find_first_not_of substr_find_last_not_of)

lemma trim_shape:
  fixes P :: "char \<Rightarrow> bool"
  assumes "\<exists>c\<in>set str. \<not> P c"
  defines "t \<equiv> rev (dropWhile P (rev (dropWhile P str)))"
  shows "t \<noteq> []" and "\<not> P (hd t)" and "\<not> P (last t)"
proof -
  let ?u = "dropWhile P str"
  from assms(1) have u: "?u \<noteq> []" by (auto simp: dropWhile_eq_Nil_conv)
  then have hu: "\<not> P (hd ?u)" by (rule hd_dropWhile)
  then have ex: "\<exists>x\<in>set (rev ?u). \<not> P x" using hd_in_set[OF u] by auto
  then have v: "dropWhile P (rev ?u) \<noteq> []" by (auto simp: dropWhile_eq_Nil_conv)
  then show "t \<noteq> []" by (simp add: t_def)
  from v have "\<not> P (hd (dropWhile P (rev ?u)))" by (rule hd_dropWhile)
  then show "\<not> P (last t)" using v by (simp add: t_def last_rev)
  obtain a as where as: "?u = a # as" using u by (cases ?u) auto
  with hu have a: "\<not> P a" by simp
  have "dropWhile P (rev as @ [a]) = dropWhile P (rev as) @ [a]"
    using a by (simp add: dropWhile_append)
  then have "hd t = a" by (simp add: t_def as)
  with a show "\<not> P (hd t)" by simp
qed

lemma trim_fixed:
  fixes P :: "char \<Rightarrow> bool"
  assumes "t \<noteq> []" "\<not> P (hd t)" "\<not> P (last t)"
  shows "rev (dropWhile P (rev (dropWhile P t))) = t"
proof -
  from assms have 1: "dropWhile P t = t" by (cases t) auto
  from assms have "rev t \<noteq> []" "\<not> P (hd (rev t))" by (simp_all add: hd_rev)
  then have "dropWhile P (rev t) = rev t" by (cases "rev t") auto
  with 1 show ?thesis by simp
qed

text \<open>
  Claim C1. The specification wants \<open>trim\<close> of an all-whitespace or empty text to return
  the empty text. The code does not: \<^verbatim>\<open>find_first_not_of\<close> returns \<^verbatim>\<open>npos\<close> there, and
  the unguarded \<^verbatim>\<open>str.substr(npos)\<close> throws \<^verbatim>\<open>std::out_of_range\<close>. This theorem
  evaluates the code at \<open>"   "\<close> and at \<open>""\<close>, where it throws, and at \<open>"  hi  "\<close>,
  where it returns \<open>"hi"\<close> as the claim says.
\<close>

theorem string_trim_degenerate_throws:
  "string_trim ''   '' = Inl OutOfRange \<and>
   string_trim [] = Inl OutOfRange \<and>
   string_trim ''  hi  '' = Inr ''hi''"
  by (simp add: string_trim_def WHITESPACE_def substr_from_def substr_def size_t_succ_def)

text \<open>
  Claim C10. On a text with at least one character outside the whitespace set
  (space, tab, newline, carriage return), \<open>string_trim\<close> returns a text \<open>t\<close> that it maps
  to itself, so \<open>trim(trim(text)) = trim(text)\<close>, and \<open>t\<close> neither starts nor ends with
  a character of the whitespace set.
\<close>

theorem string_trim_idempotent:
  assumes "\<exists>c\<in>set text. c \<notin> set WHITESPACE"
  shows "\<exists>t. string_trim text = Inr t \<and> string_trim t = Inr t \<and> t \<noteq> [] \<and>
             hd t \<notin> set WHITESPACE \<and> last t \<notin> set WHITESPACE"
proof -
  let ?P = "\<lambda>c. c \<in> set WHITESPACE"
  let ?t = "rev (dropWhile ?P (rev (dropWhile ?P text)))"
  from assms have ne: "\<not> set text \<subseteq> set WHITESPACE" by auto
  then have 1: "string_trim text = Inr ?t" by (simp add: string_trim_eq)
  from assms have ex: "\<exists>c\<in>set text. \<not> ?P c" by simp
  note sh = trim_shape[OF ex]
  have 2: "\<not> set ?t \<subseteq> set WHITESPACE"
    using sh(1) sh(2) hd_in_set[OF sh(1)] by blast
  have "string_trim ?t = Inr ?t"
    using 2 trim_fixed[OF sh] by (simp add: string_trim_eq)
  with 1 sh show ?thesis by blast
qed

theorem string_trim_idempotent_witness:
  "(\<exists>c\<in>set ''  hi  ''. c \<notin> set WHITESPACE) \<and>
   (\<exists>t. string_trim ''  hi  '' = Inr t \<and> string_trim t = Inr t \<and> t \<noteq> [] \<and>
             hd t \<notin> set WHITESPACE \<and> last t \<notin> set WHITESPACE)"
proof -
  have h: "\<exists>c\<in>set ''  hi  ''. c \<notin> set WHITESPACE" by (simp add: WHITESPACE_def)
  from string_trim_idempotent[OF h] h show ?thesis by blast
qed

subsection \<open>\<^verbatim>\<open>string::split\<close>: the searches and one iteration\<close>

lemma str_find_None: "str_find str del = None \<longleftrightarrow> \<not> sublist del str"
  by (induction str) (auto simp: sublist_Cons_right)

lemma str_find_Some:
  "str_find str del = Some i \<Longrightarrow> prefix del (drop i str) \<and> i + length del \<le> length str"
proof (induction str arbitrary: i)
  case Nil
  then show ?case by (simp split: if_splits)
next
  case (Cons c cs)
  show ?case
  proof (cases "prefix del (c # cs)")
    case True
    with Cons.prems have "i = 0" by simp
    with True show ?thesis using prefix_length_le[OF True] by simp
  next
    case False
    with Cons.prems obtain j where "str_find cs del = Some j" "i = Suc j" by auto
    with Cons.IH[of j] show ?thesis by simp
  qed
qed

lemma str_find_replicate:
  "a \<noteq> d \<Longrightarrow> str_find rest (d # ds) = Some j \<Longrightarrow>
   str_find (replicate n a @ rest) (d # ds) = Some (n + j)"
  by (induction n) simp_all

lemma find_first_of_None: "find_first_of str del = None \<longleftrightarrow> set str \<inter> set del = {}"
  by (induction str) auto

lemma find_first_of_Some: "find_first_of str del = Some i \<Longrightarrow> i < length str"
  by (induction str arbitrary: i) (auto split: if_splits)

lemma find_first_of_append:
  "set pre \<inter> set del = {} \<Longrightarrow> c \<in> set del \<Longrightarrow>
   find_first_of (pre @ c # rest) del = Some (length pre)"
  by (induction pre) auto

lemma to_int_npos: "to_int npos = - 1"
  by (simp add: to_int_def size_t_val_def)

lemma to_int_index: "i < 2 ^ 31 \<Longrightarrow> to_int (Some i) = int i"
  by (simp add: to_int_def size_t_val_def)

lemma to_int_narrowed:
  "2 ^ 31 \<le> i \<Longrightarrow> i < 2 ^ 32 \<Longrightarrow> to_int (Some i) = int i - 2 ^ 32"
  by (simp add: to_int_def size_t_val_def)

lemma to_size_t_index: "i < 2 ^ 64 \<Longrightarrow> to_size_t (int i) = i"
  by (simp add: to_size_t_def nat_mod_distrib)

lemma split_step_literal_npos:
  "str_find str del = None \<Longrightarrow> split_step str del False = Inr (str, [])"
  by (simp add: split_step_def to_int_npos)

lemma split_step_multiple_npos:
  "find_first_of str del = None \<Longrightarrow> split_step str del True = Inr (str, [])"
  by (simp add: split_step_def to_int_npos)

lemma split_step_literal_found:
  assumes "str_find str del = Some i" and "length str < 2 ^ 31"
  shows "split_step str del False = Inr (take i str, drop (i + length del) str)"
proof -
  from str_find_Some[OF assms(1)] have le: "i + length del \<le> length str" by simp
  with assms(2) have i: "i < 2 ^ 31" and s: "i + length del < 2 ^ 64" by simp_all
  from i have i64: "i < 2 ^ 64" by simp
  have f: "to_int (str_find str del) = int i"
    using assms(1) i by (simp add: to_int_index)
  have p: "size_t_add i (length del) = i + length del"
    using s by (simp add: size_t_add_def)
  show ?thesis
    using le by (simp add: split_step_def f p to_size_t_index[OF i64] substr_def substr_from_def)
qed

lemma split_step_multiple_found:
  assumes "find_first_of str del = Some i" and "length str < 2 ^ 31"
  shows "split_step str del True = Inr (take i str, drop (Suc i) str)"
proof -
  from find_first_of_Some[OF assms(1)] have le: "i < length str" .
  with assms(2) have i: "i < 2 ^ 31" and s: "i + 1 < 2 ^ 64" by simp_all
  from i have i64: "i < 2 ^ 64" by simp
  have f: "to_int (find_first_of str del) = int i"
    using assms(1) i by (simp add: to_int_index)
  have p: "size_t_add i (Suc 0) = Suc i"
    using s by (simp add: size_t_add_def)
  show ?thesis
    using le by (simp add: split_step_def f p to_size_t_index[OF i64] substr_def substr_from_def)
qed

lemma split_step_shortens:
  assumes "str \<noteq> []" "del \<noteq> []" "length str < 2 ^ 31"
  shows "\<exists>token str'. split_step str del multiple = Inr (token, str') \<and>
           length str' < length str"
proof (cases multiple)
  case True
  show ?thesis
  proof (cases "find_first_of str del")
    case None
    with True assms show ?thesis by (simp add: split_step_multiple_npos)
  next
    case (Some i)
    with True assms find_first_of_Some[OF Some] show ?thesis
      by (simp add: split_step_multiple_found)
  qed
next
  case False
  show ?thesis
  proof (cases "str_find str del")
    case None
    with False assms show ?thesis by (simp add: split_step_literal_npos)
  next
    case (Some i)
    with False assms str_find_Some[OF Some] show ?thesis
      by (simp add: split_step_literal_found)
  qed
qed

lemma split_step_error: "split_step str del multiple = Inl e \<Longrightarrow> e = OutOfRange"
  by (auto simp: split_step_def Let_def substr_def substr_from_def
           split: if_splits sum.splits)

lemma split_loop_Nil: "split_loop [] del multiple tokens = Some (Inr tokens)"
  by (subst split_loop.simps) simp

lemma split_loop_step:
  "str \<noteq> [] \<Longrightarrow> split_step str del multiple = Inr (token, str') \<Longrightarrow>
   split_loop str del multiple tokens =
     split_loop str' del multiple (if token = [] then tokens else tokens @ [token])"
  by (subst split_loop.simps) simp

lemma split_loop_error:
  "str \<noteq> [] \<Longrightarrow> split_step str del multiple = Inl e \<Longrightarrow>
   split_loop str del multiple tokens = Some (Inl e)"
  by (subst split_loop.simps) simp

lemma split_loop_total:
  assumes "del \<noteq> []"
  shows "length str < 2 ^ 31 \<Longrightarrow>
         \<exists>ts. split_loop str del multiple tokens = Some (Inr (tokens @ ts)) \<and> [] \<notin> set ts"
proof (induction "length str" arbitrary: str tokens rule: less_induct)
  case less
  show ?case
  proof (cases "str = []")
    case True
    then show ?thesis by (simp add: split_loop_Nil)
  next
    case False
    from split_step_shortens[OF False assms less.prems, of multiple] obtain token str'
      where st: "split_step str del multiple = Inr (token, str')" and len: "length str' < length str"
      by blast
    from len less.prems have b: "length str' < 2 ^ 31" by simp
    from less.hyps[OF len b, of "if token = [] then tokens else tokens @ [token]"]
    obtain ts where ts: "split_loop str' del multiple (if token = [] then tokens else tokens @ [token])
        = Some (Inr ((if token = [] then tokens else tokens @ [token]) @ ts))" "[] \<notin> set ts"
      by blast
    show ?thesis
    proof (cases "token = []")
      case True
      with ts show ?thesis by (auto simp: split_loop_step[OF False st])
    next
      case False
      with ts have "split_loop str del multiple tokens = Some (Inr (tokens @ (token # ts)))"
        by (simp add: split_loop_step[OF \<open>str \<noteq> []\<close> st])
      moreover have "[] \<notin> set (token # ts)" using False ts(2) by auto
      ultimately show ?thesis by blast
    qed
  qed
qed

text \<open>
  On a text of fewer than \<open>2 ^ 31\<close> characters every index fits \<^verbatim>\<open>int found\<close>. There,
  with a non-empty delimiter, an iteration on a non-empty remaining text yields a strictly
  shorter one, and \<open>split\<close> returns a token list.
\<close>

lemma split_terminates_below_int_max:
  assumes "str \<noteq> []" and "del \<noteq> []" and "length str < 2 ^ 31"
  shows "(\<exists>token str'. split_step str del multiple = Inr (token, str') \<and>
            length str' < length str) \<and>
         (\<exists>tokens. string_split str del multiple = Some (Inr tokens))"
proof -
  from split_loop_total[OF assms(2,3), of multiple "[]"]
  have "\<exists>tokens. string_split str del multiple = Some (Inr tokens)"
    using assms by (auto simp: string_split_def)
  with split_step_shortens[OF assms] show ?thesis by blast
qed

subsection \<open>\<^verbatim>\<open>string::split\<close>: an index that does not fit \<^verbatim>\<open>int found\<close>\<close>

text \<open>
  When the match is at an index from \<open>2 ^ 31\<close> on, \<^verbatim>\<open>found\<close> is negative. Converted back to
  \<^verbatim>\<open>size_t\<close> it is close to \<open>2 ^ 64\<close>: the token is the whole remaining text, and the new
  position either lies beyond the end of the text, so that \<^verbatim>\<open>substr\<close> throws, or wraps
  around to 0, so that the remaining text stays as it is.
\<close>

lemma to_size_t_narrowed:
  assumes "2 ^ 31 \<le> i" and "i < 2 ^ 32"
  shows "to_size_t (int i - 2 ^ 32) = 2 ^ 64 - 2 ^ 32 + i"
proof -
  have "(int i - 2 ^ 32) mod 2 ^ 64 = (int i - 2 ^ 32 + 2 ^ 64) mod 2 ^ 64"
    by (simp only: mod_add_self2)
  also have "\<dots> = int i - 2 ^ 32 + 2 ^ 64"
    using assms by (intro mod_pos_pos_trivial) simp_all
  finally show ?thesis using assms by (simp add: to_size_t_def)
qed

lemma split_step_narrowed_throws:
  assumes "(if multiple then find_first_of str del else str_find str del) = Some i"
    and "2 ^ 31 \<le> i" and "i + (if multiple then 1 else length del) < 2 ^ 32"
    and "length str < 2 ^ 63" and "del \<noteq> []"
  shows "split_step str del multiple = Inl OutOfRange"
proof -
  let ?k = "if multiple then 1 else length del"
  from assms(3) have i: "i < 2 ^ 32" by simp
  have f: "to_int (if multiple then find_first_of str del else str_find str del)
             = int i - 2 ^ 32"
    unfolding assms(1) by (rule to_int_narrowed[OF assms(2) i])
  have "1 \<le> ?k" using assms(5) by (cases del) simp_all
  with assms(3) have "i + 1 < 2 ^ 32" by linarith
  then have ne: "int i - 2 ^ 32 \<noteq> - 1" by simp
  have q: "to_size_t (int i - 2 ^ 32) = 2 ^ 64 - 2 ^ 32 + i"
    by (rule to_size_t_narrowed[OF assms(2) i])
  have "2 ^ 64 - 2 ^ 32 + i + ?k < (2 ^ 64 :: nat)" using assms(3) by simp
  then have p: "size_t_add (2 ^ 64 - 2 ^ 32 + i) ?k = 2 ^ 64 - 2 ^ 32 + i + ?k"
    by (simp add: size_t_add_def)
  have gt: "length str < 2 ^ 64 - 2 ^ 32 + i + ?k" using assms(4) by simp
  show ?thesis
    unfolding split_step_def f Let_def q p using ne gt
    by (simp add: substr_def substr_from_def)
qed

lemma split_step_narrowed_stuck:
  assumes "str_find str del = Some i"
    and "2 ^ 31 \<le> i" and "i + length del = 2 ^ 32" and "2 \<le> length del"
    and "length str < 2 ^ 63"
  shows "split_step str del False = Inr (str, str)"
proof -
  from assms(3,4) have i: "i < 2 ^ 32" by simp
  have f: "to_int (str_find str del) = int i - 2 ^ 32"
    unfolding assms(1) by (rule to_int_narrowed[OF assms(2) i])
  have ne: "int i - 2 ^ 32 \<noteq> - 1" using assms(3,4) by simp
  have q: "to_size_t (int i - 2 ^ 32) = 2 ^ 64 - 2 ^ 32 + i"
    by (rule to_size_t_narrowed[OF assms(2) i])
  have e: "2 ^ 64 - 2 ^ 32 + i + length del = (2 ^ 64 :: nat)" using assms(3) by simp
  have p: "size_t_add (2 ^ 64 - 2 ^ 32 + i) (length del) = 0"
    unfolding size_t_add_def e by simp
  have gt: "length str \<le> 2 ^ 64 - 2 ^ 32 + i" using assms(5) by simp
  show ?thesis
    unfolding split_step_def if_False f Let_def q p using ne gt
    by (simp add: substr_def substr_from_def)
qed

lemma split_loop_stuck:
  assumes "S \<noteq> []" and "split_step S D M = Inr (S, S)"
  shows "split_loop S D M tokens = None"
proof (cases "split_loop S D M tokens")
  case None
  then show ?thesis .
next
  case (Some r)
  have "\<not> (S = S \<and> D = D \<and> M = M)"
  proof (rule split_loop.raw_induct
      [where P = "\<lambda>str del multiple tokens r. \<not> (str = S \<and> del = D \<and> multiple = M)", OF _ Some])
    fix f :: "string \<Rightarrow> string \<Rightarrow> bool \<Rightarrow> string list \<Rightarrow> (error + string list) option"
      and str del multiple tokens r
    assume IH: "\<And>str del multiple tokens r.
        f str del multiple tokens = Some r \<Longrightarrow> \<not> (str = S \<and> del = D \<and> multiple = M)"
    assume eq: "(if 0 < length str
        then case split_step str del multiple of Inl e \<Rightarrow> Some (Inl e)
             | Inr (token, str') \<Rightarrow>
                 f str' del multiple (if length token \<noteq> 0 then tokens @ [token] else tokens)
        else Some (Inr tokens)) = Some r"
    show "\<not> (str = S \<and> del = D \<and> multiple = M)"
    proof
      assume a: "str = S \<and> del = D \<and> multiple = M"
      with eq assms have "f S D M (tokens @ [S]) = Some r" by simp
      from IH[OF this] show False by simp
    qed
  qed
  then show ?thesis by simp
qed

lemma find_first_of_single: "find_first_of str [d] = str_find str [d]"
  by (induction str) auto

lemma find_first_of_replicate:
  "a \<notin> set del \<Longrightarrow> c \<in> set del \<Longrightarrow> find_first_of (replicate n a @ c # rest) del = Some n"
  using find_first_of_append[of "replicate n a" del c rest] by (cases "n = 0") simp_all

lemma split_large_index_throws:
  assumes "a \<noteq> c" and "2 ^ 31 \<le> n" and "n + 1 < 2 ^ 32" and "length rest < 2 ^ 31"
  shows "split_step (replicate n a @ c # rest) [c] multiple = Inl OutOfRange"
    and "string_split (replicate n a @ c # rest) [c] multiple = Some (Inl OutOfRange)"
proof -
  let ?T = "replicate n a @ c # rest"
  have fnd: "find_first_of ?T [c] = Some n"
    using assms(1) by (intro find_first_of_replicate) simp_all
  then have fnd': "(if multiple then find_first_of ?T [c] else str_find ?T [c]) = Some n"
    by (simp add: find_first_of_single)
  have k: "n + (if multiple then 1 else length [c]) < 2 ^ 32" using assms(3) by simp
  have len: "length ?T < 2 ^ 63" using assms(3,4) by simp
  show st: "split_step ?T [c] multiple = Inl OutOfRange"
    by (rule split_step_narrowed_throws[OF fnd' assms(2) k len]) simp
  have ne: "?T \<noteq> []" by simp
  have "split_loop ?T [c] multiple [] = Some (Inl OutOfRange)"
    by (rule split_loop_error[OF ne st])
  then show "string_split ?T [c] multiple = Some (Inl OutOfRange)"
    by (simp add: string_split_def)
qed

text \<open>
  Claim C8. The specification has the loop of \<open>split\<close> terminate for every text and
  non-empty delimiter, each iteration shortening the remaining text. The code does not
  for the text of \<open>2 ^ 32 - 2\<close> characters \<open>a\<close> followed by \<open>", "\<close>, split in literal mode
  at \<open>", "\<close>: the match is at index \<open>2 ^ 32 - 2\<close>, \<^verbatim>\<open>found\<close> is \<open>-2\<close>, and
  \<open>found + del.length()\<close> is 0, so the iteration leaves the remaining text unchanged and
  the loop never returns.
\<close>

theorem split_wrapped_cursor_never_returns:
  "split_step (replicate (2 ^ 32 - 2) CHR ''a'' @ '', '') '', '' False =
     Inr (replicate (2 ^ 32 - 2) CHR ''a'' @ '', '', replicate (2 ^ 32 - 2) CHR ''a'' @ '', '') \<and>
   string_split (replicate (2 ^ 32 - 2) CHR ''a'' @ '', '') '', '' False = None"
proof -
  let ?S = "replicate (2 ^ 32 - 2) CHR ''a'' @ '', ''"
  have "str_find '', '' '', '' = Some 0" by simp
  then have "str_find ?S '', '' = Some (2 ^ 32 - 2 + 0)"
    by (intro str_find_replicate) simp
  then have fnd: "str_find ?S '', '' = Some (2 ^ 32 - 2)" by simp
  have len: "length ?S = 2 ^ 32" by simp
  have st: "split_step ?S '', '' False = Inr (?S, ?S)"
    by (rule split_step_narrowed_stuck[OF fnd]) (simp_all only: len, simp_all)
  have ne: "?S \<noteq> []" by simp
  have "split_loop ?S '', '' False [] = None"
    by (rule split_loop_stuck[OF ne st])
  then have "string_split ?S '', '' False = None"
    using len by (simp add: string_split_def)
  with st show ?thesis by (intro conjI)
qed

lemma split_loop_no_assertion:
  assumes "split_loop str del multiple tokens = Some r"
  shows "r \<noteq> Inl AssertionFailure"
proof (rule split_loop.raw_induct
    [where P = "\<lambda>str del multiple tokens r. r \<noteq> Inl AssertionFailure", OF _ assms])
  fix f :: "string \<Rightarrow> string \<Rightarrow> bool \<Rightarrow> string list \<Rightarrow> (error + string list) option"
    and str del multiple tokens r
  assume IH: "\<And>str del multiple tokens r.
      f str del multiple tokens = Some r \<Longrightarrow> r \<noteq> Inl AssertionFailure"
  assume eq: "(if 0 < length str
      then case split_step str del multiple of Inl e \<Rightarrow> Some (Inl e)
           | Inr (token, str') \<Rightarrow>
               f str' del multiple (if length token \<noteq> 0 then tokens @ [token] else tokens)
      else Some (Inr tokens)) = Some r"
  show "r \<noteq> Inl AssertionFailure"
  proof (cases "str = []")
    case True
    with eq show ?thesis by auto
  next
    case False
    show ?thesis
    proof (cases "split_step str del multiple")
      case (Inl e)
      with False eq split_step_error[OF Inl] show ?thesis by auto
    next
      case (Inr p)
      obtain token str' where p: "p = (token, str')" by (cases p)
      from False Inr p eq
      have "f str' del multiple (if length token \<noteq> 0 then tokens @ [token] else tokens) = Some r"
        by simp
      then show ?thesis by (rule IH)
    qed
  qed
qed

text \<open>
  Claim C4. \<open>split\<close> called with an empty text or with an empty delimiter stops at a
  failed assertion instead of returning a value, and for every other input no assertion
  fails: the result is the assertion failure exactly when the text or the delimiter is
  empty.
\<close>

theorem split_asserts_preconditions:
  "string_split str del multiple = Some (Inl AssertionFailure) \<longleftrightarrow> str = [] \<or> del = []"
proof (cases "str = [] \<or> del = []")
  case True
  then show ?thesis by (auto simp: string_split_def)
next
  case False
  then show ?thesis
    using split_loop_no_assertion[of str del multiple "[]" "Inl AssertionFailure"]
    by (auto simp: string_split_def)
qed

subsection \<open>\<^verbatim>\<open>string::split\<close>: the two modes\<close>

lemma split_loop_same_step:
  assumes st: "\<And>s. split_step s d1 m1 = split_step s d2 m2"
    and run: "split_loop str d1 m1 tokens = Some r"
  shows "split_loop str d2 m2 tokens = Some r"
proof -
  have "d1 = d1 \<longrightarrow> m1 = m1 \<longrightarrow> split_loop str d2 m2 tokens = Some r"
  proof (rule split_loop.raw_induct
      [where P = "\<lambda>str del multiple tokens r.
         del = d1 \<longrightarrow> multiple = m1 \<longrightarrow> split_loop str d2 m2 tokens = Some r", OF _ run])
    fix f :: "string \<Rightarrow> string \<Rightarrow> bool \<Rightarrow> string list \<Rightarrow> (error + string list) option"
      and str del multiple tokens r
    assume IH: "\<And>str del multiple tokens r.
        f str del multiple tokens = Some r \<Longrightarrow>
        del = d1 \<longrightarrow> multiple = m1 \<longrightarrow> split_loop str d2 m2 tokens = Some r"
    assume eq: "(if 0 < length str
        then case split_step str del multiple of Inl e \<Rightarrow> Some (Inl e)
             | Inr (token, str') \<Rightarrow>
                 f str' del multiple (if length token \<noteq> 0 then tokens @ [token] else tokens)
        else Some (Inr tokens)) = Some r"
    show "del = d1 \<longrightarrow> multiple = m1 \<longrightarrow> split_loop str d2 m2 tokens = Some r"
    proof (intro impI)
      assume d: "del = d1" and m: "multiple = m1"
      show "split_loop str d2 m2 tokens = Some r"
      proof (cases "str = []")
        case True
        with eq show ?thesis by (simp add: split_loop_Nil)
      next
        case False
        show ?thesis
        proof (cases "split_step str d2 m2")
          case (Inl e)
          with False eq d m st[of str] show ?thesis by (simp add: split_loop_error)
        next
          case (Inr p)
          obtain token str' where p: "p = (token, str')" by (cases p)
          from False Inr p eq d m st[of str]
          have "f str' d1 m1 (if token = [] then tokens else tokens @ [token]) = Some r"
            by (cases "token = []") simp_all
          from IH[OF this] have "split_loop str' d2 m2
              (if token = [] then tokens else tokens @ [token]) = Some r" by simp
          with Inr p show ?thesis by (simp add: split_loop_step[OF False])
        qed
      qed
    qed
  qed
  then show ?thesis by simp
qed

lemma split_step_single: "split_step str [d] True = split_step str [d] False"
  by (simp add: split_step_def find_first_of_single Let_def cong: sum.case_cong)

lemma split_loop_single:
  "split_loop str [d] True tokens = split_loop str [d] False tokens"
proof (cases "split_loop str [d] True tokens")
  case (Some r)
  with split_loop_same_step[OF split_step_single Some] show ?thesis by simp
next
  case None
  show ?thesis
  proof (cases "split_loop str [d] False tokens")
    case None
    with \<open>split_loop str [d] True tokens = None\<close> show ?thesis by simp
  next
    case (Some r)
    from split_loop_same_step[OF split_step_single[symmetric] Some] None show ?thesis by simp
  qed
qed

text \<open>
  Claim C9. For every text and every delimiter of a single character \<open>d\<close>, the two modes
  of \<open>split\<close> give the same result: \<open>split(text, d, true) = split(text, d, false)\<close>.
  (On the empty text both stop at the failed assertion.)
\<close>

theorem split_single_char_modes_agree:
  "string_split text [d] True = string_split text [d] False"
  by (simp add: string_split_def split_loop_single)

subsection \<open>\<^verbatim>\<open>string::split\<close>: empty candidate tokens\<close>

lemma str_find_prefix: "prefix del str \<Longrightarrow> str_find str del = Some 0"
  by (cases str) auto

lemma split_loop_literal_absent:
  assumes "str \<noteq> []" and "\<not> sublist del str"
  shows "split_loop str del False tokens = Some (Inr (tokens @ [str]))"
proof -
  from assms(2) have "str_find str del = None" by (simp add: str_find_None)
  then have "split_step str del False = Inr (str, [])" by (rule split_step_literal_npos)
  from split_loop_step[OF assms(1) this] assms(1) show ?thesis by (simp add: split_loop_Nil)
qed

lemma split_loop_multiple_absent:
  assumes "str \<noteq> []" and "set str \<inter> set del = {}"
  shows "split_loop str del True tokens = Some (Inr (tokens @ [str]))"
proof -
  from assms(2) have "find_first_of str del = None" by (simp add: find_first_of_None)
  then have "split_step str del True = Inr (str, [])" by (rule split_step_multiple_npos)
  from split_loop_step[OF assms(1) this] assms(1) show ?thesis by (simp add: split_loop_Nil)
qed

lemma split_loop_literal_all:
  assumes "del \<noteq> []"
  shows "length (concat (replicate n del)) < 2 ^ 31 \<Longrightarrow>
         split_loop (concat (replicate n del)) del False tokens = Some (Inr tokens)"
proof (induction n)
  case 0
  then show ?case by (simp add: split_loop_Nil)
next
  case (Suc n)
  let ?str = "del @ concat (replicate n del)"
  have ne: "?str \<noteq> []" using assms by simp
  have len: "length ?str < 2 ^ 31" using Suc.prems by simp
  have "str_find ?str del = Some 0" by (rule str_find_prefix) simp
  from split_step_literal_found[OF this len]
  have "split_step ?str del False = Inr ([], concat (replicate n del))" by simp
  from split_loop_step[OF ne this] Suc show ?case by simp
qed

lemma split_step_multiple_match:
  assumes "c \<in> set del" and "set pre \<inter> set del = {}" and "length (pre @ c # rest) < 2 ^ 31"
  shows "split_step (pre @ c # rest) del True = Inr (pre, rest)"
proof -
  have "find_first_of (pre @ c # rest) del = Some (length pre)"
    using assms by (simp add: find_first_of_append)
  from split_step_multiple_found[OF this assms(3)] show ?thesis by simp
qed

lemma split_loop_multiple_match:
  assumes "c \<in> set del" and "set pre \<inter> set del = {}" and "length (pre @ c # rest) < 2 ^ 31"
  shows "split_loop (pre @ c # rest) del True tokens =
           split_loop rest del True (if pre = [] then tokens else tokens @ [pre])"
  using split_step_multiple_match[OF assms] by (simp add: split_loop_step)

lemma split_loop_multiple_all:
  "set str \<subseteq> set del \<Longrightarrow> length str < 2 ^ 31 \<Longrightarrow>
   split_loop str del True tokens = Some (Inr tokens)"
proof (induction str)
  case Nil
  then show ?case by (simp add: split_loop_Nil)
next
  case (Cons c cs)
  then have h: "c \<in> set del" "set [] \<inter> set del = {}" "length ([] @ c # cs) < 2 ^ 31" by auto
  from split_loop_multiple_match[OF h, of tokens] Cons show ?case by simp
qed

text \<open>
  On a non-empty text of fewer than \<open>2 ^ 31\<close> characters and with a non-empty delimiter,
  in both modes, \<open>split\<close> returns a token list without an empty entry. If the delimiter
  does not occur in the text (as a contiguous substring in literal mode, none of its
  characters in set mode), the result is the list of the whole text alone. If the text
  consists entirely of delimiters (some number of copies of the delimiter in literal mode,
  only characters of the delimiter in set mode), the result is the empty list.
\<close>

lemma split_discards_empty_tokens_below_int_max:
  assumes "str \<noteq> []" and "del \<noteq> []" and "length str < 2 ^ 31"
  shows "(\<exists>ts. string_split str del multiple = Some (Inr ts) \<and> [] \<notin> set ts) \<and>
         (\<not> sublist del str \<longrightarrow> string_split str del False = Some (Inr [str])) \<and>
         (set str \<inter> set del = {} \<longrightarrow> string_split str del True = Some (Inr [str])) \<and>
         ((\<exists>n. str = concat (replicate n del)) \<longrightarrow>
            string_split str del False = Some (Inr [])) \<and>
         (set str \<subseteq> set del \<longrightarrow> string_split str del True = Some (Inr []))"
proof -
  have sp: "string_split str del m = split_loop str del m []" for m
    using assms by (simp add: string_split_def)
  have 1: "\<exists>ts. string_split str del multiple = Some (Inr ts) \<and> [] \<notin> set ts"
    using split_loop_total[OF assms(2,3), of multiple "[]"] by (simp add: sp)
  have 2: "\<not> sublist del str \<longrightarrow> string_split str del False = Some (Inr [str])"
    using assms(1) by (simp add: sp split_loop_literal_absent)
  have 3: "set str \<inter> set del = {} \<longrightarrow> string_split str del True = Some (Inr [str])"
    using assms(1) by (simp add: sp split_loop_multiple_absent)
  have 4: "(\<exists>n. str = concat (replicate n del)) \<longrightarrow>
            string_split str del False = Some (Inr [])"
  proof
    assume "\<exists>n. str = concat (replicate n del)"
    then obtain n where n: "str = concat (replicate n del)" ..
    have "split_loop str del False [] = Some (Inr [])"
      using assms(3) unfolding n by (rule split_loop_literal_all[OF assms(2)])
    then show "string_split str del False = Some (Inr [])" by (simp only: sp)
  qed
  have 5: "set str \<subseteq> set del \<longrightarrow> string_split str del True = Some (Inr [])"
    using assms(3) by (simp add: sp split_loop_multiple_all)
  show ?thesis by (intro conjI 1 2 3 4 5)
qed


subsection \<open>\<^verbatim>\<open>string::split\<close>: set mode\<close>

lemma pieces_absent: "set str \<inter> S = {} \<Longrightarrow> pieces S str = [str]"
  by (induction str) auto

lemma pieces_match:
  "set pre \<inter> S = {} \<Longrightarrow> c \<in> S \<Longrightarrow> pieces S (pre @ c # rest) = pre # pieces S rest"
  by (induction pre) auto

lemma split_loop_multiple_pieces:
  "length str < 2 ^ 31 \<Longrightarrow>
   split_loop str del True tokens =
     Some (Inr (tokens @ filter (\<lambda>t. t \<noteq> []) (pieces (set del) str)))"
proof (induction "length str" arbitrary: str tokens rule: less_induct)
  case less
  show ?case
  proof (cases "set str \<inter> set del = {}")
    case True
    show ?thesis
    proof (cases "str = []")
      case True
      then show ?thesis by (simp add: split_loop_Nil)
    next
      case False
      with True show ?thesis
        by (simp add: split_loop_multiple_absent pieces_absent)
    qed
  next
    case False
    then have "\<exists>x\<in>set str. x \<in> set del" by auto
    from split_list_first_prop[OF this] obtain pre c rest
      where str: "str = pre @ c # rest" and c: "c \<in> set del"
        and pre: "\<forall>y\<in>set pre. y \<notin> set del" by blast
    from pre have pre': "set pre \<inter> set del = {}" by auto
    have len: "length rest < length str" by (simp add: str)
    from len less.prems have b: "length rest < 2 ^ 31" by simp
    from less.prems have b': "length (pre @ c # rest) < 2 ^ 31" by (simp add: str)
    show ?thesis
      unfolding str split_loop_multiple_match[OF c pre' b'] less.hyps[OF len b]
        pieces_match[OF pre' c]
      by simp
  qed
qed

text \<open>
  With \<open>multiple = true\<close> the delimiter is a set of characters. On a text of fewer than
  \<open>2 ^ 31\<close> characters: when \<open>c\<close> is the first character of the text that belongs to the
  delimiter, the text being \<open>pre @ c # rest\<close> with no character of \<open>pre\<close> in the delimiter,
  the iteration yields the candidate token \<open>pre\<close> and the remaining text \<open>rest\<close>, so the
  cursor moves past exactly the one character \<open>c\<close>, whatever the length of the delimiter,
  and \<open>split\<close> goes on with \<open>rest\<close>, having kept \<open>pre\<close> if it is not empty. As a whole the
  result is the list of the non-empty pieces of the text between the characters of the
  delimiter, and \<open>split("a b  c", " ", true) = ["a", "b", "c"]\<close>.
\<close>

lemma split_multiple_set_mode_below_int_max:
  "(c \<in> set del \<and> set pre \<inter> set del = {} \<and> length (pre @ c # rest) < 2 ^ 31 \<longrightarrow>
      split_step (pre @ c # rest) del True = Inr (pre, rest) \<and>
      string_split (pre @ c # rest) del True =
        split_loop rest del True (if pre = [] then [] else [pre])) \<and>
   (str \<noteq> [] \<and> del \<noteq> [] \<and> length str < 2 ^ 31 \<longrightarrow>
      string_split str del True =
        Some (Inr (filter (\<lambda>t. t \<noteq> []) (pieces (set del) str)))) \<and>
   string_split ''a b  c'' '' '' True = Some (Inr [''a'', ''b'', ''c''])"
proof -
  have 1: "split_step (pre @ c # rest) del True = Inr (pre, rest)"
    if "c \<in> set del" "set pre \<inter> set del = {}" "length (pre @ c # rest) < 2 ^ 31"
    using that by (rule split_step_multiple_match)
  have 2: "string_split (pre @ c # rest) del True =
           split_loop rest del True (if pre = [] then [] else [pre])"
    if "c \<in> set del" "set pre \<inter> set del = {}" "length (pre @ c # rest) < 2 ^ 31"
    using that split_loop_multiple_match[OF that, of "[]"] by (auto simp: string_split_def)
  have 3: "string_split str del True =
        Some (Inr (filter (\<lambda>t. t \<noteq> []) (pieces (set del) str)))"
    if "str \<noteq> []" "del \<noteq> []" "length str < 2 ^ 31"
    using that by (simp add: string_split_def split_loop_multiple_pieces)
  have 4: "string_split ''a b  c'' '' '' True = Some (Inr [''a'', ''b'', ''c''])"
    by (simp add: string_split_def split_loop_multiple_pieces)
  from 1 2 3 show ?thesis by (intro conjI impI 4) auto
qed

text \<open>
  Claim C2. The specification has, for every text, each token end at the first character
  of the set and the cursor advance by one character. The code does not for the text of
  \<open>2 ^ 31\<close> characters \<open>a\<close> followed by \<open>",b"\<close>, split in set mode at \<open>","\<close>: the first
  character of the set is at index \<open>2 ^ 31\<close>, \<^verbatim>\<open>found\<close> is \<open>- (2 ^ 31)\<close>, and the iteration
  throws \<^verbatim>\<open>std::out_of_range\<close> instead of yielding the token before the comma and the
  remaining text \<open>"b"\<close> after it.
\<close>

theorem split_set_mode_large_index_throws:
  "split_step (replicate (2 ^ 31) CHR ''a'' @ '',b'') '','' True = Inl OutOfRange \<and>
   string_split (replicate (2 ^ 31) CHR ''a'' @ '',b'') '','' True = Some (Inl OutOfRange)"
proof -
  have h: "CHR ''a'' \<noteq> CHR '',''" "(2::nat) ^ 31 \<le> 2 ^ 31" "(2::nat) ^ 31 + 1 < 2 ^ 32"
    "length ''b'' < 2 ^ 31" by simp_all
  show ?thesis
    by (intro conjI split_large_index_throws[OF h])
qed

subsection \<open>\<^verbatim>\<open>string::split\<close> and \<^verbatim>\<open>string::join\<close>: the round trip\<close>

lemma interleave_Cons_nonempty:
  "ts \<noteq> [] \<Longrightarrow> interleave (t # ts) sep = t @ sep @ interleave ts sep"
  by (cases ts) simp_all

lemma split_loop_round_trip:
  assumes "del \<noteq> []"
  shows "str \<noteq> [] \<Longrightarrow> length str < 2 ^ 31 \<Longrightarrow>
         \<not> prefix del str \<Longrightarrow> \<not> suffix del str \<Longrightarrow>
         \<not> sublist (del @ del) str \<Longrightarrow>
         \<exists>ts. split_loop str del False tokens = Some (Inr (tokens @ ts)) \<and> ts \<noteq> [] \<and>
              interleave ts del = str"
proof (induction "length str" arbitrary: str tokens rule: less_induct)
  case less
  show ?case
  proof (cases "str_find str del")
    case None
    then have "\<not> sublist del str" by (simp add: str_find_None)
    from split_loop_literal_absent[OF less.prems(1) this, of tokens]
    show ?thesis by simp
  next
    case (Some i)
    let ?token = "take i str"
    let ?rest = "drop (i + length del) str"
    from str_find_Some[OF Some] have pre: "prefix del (drop i str)"
      and le: "i + length del \<le> length str" by auto
    from pre obtain zs where zs: "drop i str = del @ zs" by (auto simp: prefix_def)
    then have "drop (length del) (drop i str) = zs" by simp
    then have rest: "?rest = zs" by (simp add: add.commute)
    have str: "str = ?token @ del @ ?rest"
      using zs rest append_take_drop_id[of i str] by simp
    have i0: "i \<noteq> 0" using pre less.prems(3) by (cases i) auto
    then have tok: "?token \<noteq> []" using less.prems(1) by (cases str) auto
    have r1: "?rest \<noteq> []"
    proof
      assume "?rest = []"
      with str have "str = ?token @ del" by simp
      then have "suffix del str" by (metis suffixI)
      with less.prems(4) show False by simp
    qed
    have r2: "\<not> prefix del ?rest"
    proof
      assume "prefix del ?rest"
      then obtain ys where "?rest = del @ ys" by (auto simp: prefix_def)
      with str have "str = ?token @ (del @ del) @ ys" by simp
      then have "sublist (del @ del) str" by (metis sublist_appendI)
      with less.prems(5) show False by simp
    qed
    have r3: "\<not> suffix del ?rest"
    proof
      assume "suffix del ?rest"
      then obtain ys where "?rest = ys @ del" by (auto simp: suffix_def)
      with str have "str = (?token @ del @ ys) @ del" by simp
      then have "suffix del str" by (metis suffixI)
      with less.prems(4) show False by simp
    qed
    have r4: "\<not> sublist (del @ del) ?rest"
    proof
      assume "sublist (del @ del) ?rest"
      then obtain ps ss where "?rest = ps @ (del @ del) @ ss" by (auto simp: sublist_def)
      with str have "str = (?token @ del @ ps) @ (del @ del) @ ss" by simp
      then have "sublist (del @ del) str" by (metis sublist_appendI)
      with less.prems(5) show False by simp
    qed
    have len: "length ?rest < length str" using assms less.prems(1) by simp
    from len less.prems(2) have b: "length ?rest < 2 ^ 31" by simp
    from less.hyps[OF len r1 b r2 r3 r4, of "tokens @ [?token]"]
    obtain ts where ts: "split_loop ?rest del False (tokens @ [?token]) =
        Some (Inr ((tokens @ [?token]) @ ts))" "ts \<noteq> []" "interleave ts del = ?rest"
      by blast
    have st: "split_step str del False = Inr (?token, ?rest)"
      using Some less.prems(2) by (rule split_step_literal_found)
    have "split_loop str del False tokens = Some (Inr (tokens @ (?token # ts)))"
      using split_loop_step[OF less.prems(1) st, of tokens] tok ts(1) by simp
    moreover have "interleave (?token # ts) del = str"
      using ts(2) ts(3) str by (simp add: interleave_Cons_nonempty)
    ultimately show ?thesis by blast
  qed
qed

text \<open>
  Claim C5, as stated, covers every text, so also the empty one, which has no leading,
  trailing or consecutive occurrence of a delimiter \<open>","\<close>; but there \<open>split\<close> stops at
  its first \<^verbatim>\<open>REQUIRES\<close> and returns no token list to join.
\<close>

theorem split_join_empty_text_counterexample:
  "'','' \<noteq> [] \<and> \<not> prefix '','' [] \<and> \<not> suffix '','' [] \<and> \<not> sublist ('','' @ '','') [] \<and>
   string_split [] '','' False = Some (Inl AssertionFailure)"
  by (simp add: string_split_def)

text \<open>
  Claim C5, amended. For every non-empty text of fewer than \<open>2 ^ 31\<close> characters and
  every non-empty delimiter \<open>d\<close> such that the text does not start with \<open>d\<close>, does not
  end with \<open>d\<close> and does not contain two occurrences of \<open>d\<close> one right after the other,
  \<open>split\<close> in literal mode returns a token list, and joining it with \<open>d\<close> gives the text
  back: \<open>join(split(text, d, false), d) = text\<close>. Longer texts are left out, since
  there \<^verbatim>\<open>int found\<close> need not hold the index of the match.
\<close>

theorem split_join_round_trip:
  assumes "text \<noteq> []" and "length text < 2 ^ 31" and "d \<noteq> []"
    and "\<not> prefix d text" and "\<not> suffix d text" and "\<not> sublist (d @ d) text"
  shows "\<exists>ts. string_split text d False = Some (Inr ts) \<and> string_join ts d = text"
  using split_loop_round_trip[OF assms(3) assms(1) assms(2) assms(4) assms(5) assms(6), of "[]"]
    assms(1,3)
  by (auto simp: string_split_def string_join_interleave)

theorem split_join_round_trip_witness:
  "''a, b, c'' \<noteq> [] \<and> length ''a, b, c'' < 2 ^ 31 \<and> '', '' \<noteq> [] \<and>
   \<not> prefix '', '' ''a, b, c'' \<and>
   \<not> suffix '', '' ''a, b, c'' \<and> \<not> sublist ('', '' @ '', '') ''a, b, c'' \<and>
   (\<exists>ts. string_split ''a, b, c'' '', '' False = Some (Inr ts) \<and>
         string_join ts '', '' = ''a, b, c'')"
proof -
  have h: "''a, b, c'' \<noteq> []" "length ''a, b, c'' < 2 ^ 31" "'', '' \<noteq> []"
    "\<not> prefix '', '' ''a, b, c''"
    "\<not> suffix '', '' ''a, b, c''" "\<not> sublist ('', '' @ '', '') ''a, b, c''"
    by (simp_all add: sublist_Cons_right suffix_to_prefix)
  note t = split_join_round_trip[OF h]
  show ?thesis by (intro conjI h t)
qed

end
